theory Spec2Isabelle
  imports Complex_Main
begin

section \<open>Piecewise-linear interpolation over knots\<close>

text \<open>
  The notebook \<^verbatim>\<open>Section4_1-Bayesian_Time_Series.ipynb\<close> defines two functions named
  \<^verbatim>\<open>interpolate\<close>: a univariate one,
  \<^verbatim>\<open>
  def interpolate(x0, y0, x):
      x = np.array(x)

      idx = np.searchsorted(x0, x)
      dl = np.array(x - x0[idx - 1])
      dr = np.array(x0[idx] - x)
      d = dl + dr
      wl = dr / d

      return wl * y0[idx - 1] + (1 - wl) * y0[idx]
  \<close>
  and a grouped one, which reads the knot values from a table,
  \<^verbatim>\<open>
  def interpolate(x0, y0, x, group):
      x = np.array(x)
      group = np.array(group)

      idx = np.searchsorted(x0, x)
      dl = np.array(x - x0[idx - 1])
      dr = np.array(x0[idx] - x)
      d = dl + dr
      wl = dr / d

      return wl * y0[idx - 1, group] + (1 - wl) * y0[idx, group]
  \<close>
  Arrays are lists, every array operation is written out elementwise, and a scalar query
  is the one-element array. The arrays hold 64-bit floats: the knot positions, the knot
  values and the queries are finite floats, given as the real numbers they denote, and
  every arithmetic operation of the two functions is the float operation, which rounds
  its exact result to the nearest float and can yield an infinity or \<^verbatim>\<open>nan\<close>.
\<close>

subsection \<open>64-bit floats\<close>

text \<open>
  A float is a finite number, an infinity or \<^verbatim>\<open>nan\<close>. The two zeros of the format are one
  number here: they compare equal, and the only operation of the two functions that could
  tell them apart is the division \<^verbatim>\<open>dr / d\<close> by a zero \<^verbatim>\<open>d\<close>. That zero is never the negative
  one: a sum is \<^verbatim>\<open>-0.0\<close> only when both terms are, \<^verbatim>\<open>dl = x - x0[idx-1]\<close> is \<^verbatim>\<open>-0.0\<close> only for
  \<^verbatim>\<open>x = -0.0\<close>, and \<^verbatim>\<open>dr = x0[idx] - x\<close> only for \<^verbatim>\<open>x = 0.0\<close>.
\<close>

datatype float64 = Num real | PosInf | NegInf | NaN

text \<open>
  The spacing of the floats around a positive number \<open>r\<close>: \<open>2 ^ (e - 52)\<close> for \<open>r\<close> in
  \<open>[2 ^ e, 2 ^ (e + 1))\<close>, with \<open>e\<close> kept between \<open>-1022\<close> (below it the numbers are subnormal and
  the spacing stays \<open>2 ^ -1074\<close>) and \<open>1023\<close>. The search starts at \<open>e = 0\<close> and goes up for
  \<open>r \<ge> 1\<close> and down for \<open>r < 1\<close>; \<open>k\<close> counts the steps.
\<close>

function ulp_up :: "real \<Rightarrow> real \<Rightarrow> nat \<Rightarrow> real" where
  "ulp_up r u k = (if k < 1023 \<and> 2 ^ 53 * u \<le> r then ulp_up r (2 * u) (k + 1) else u)"
  by pat_completeness auto
termination
  by (relation "measure (\<lambda>(r, u, k). 1023 - k)") auto

function ulp_down :: "real \<Rightarrow> real \<Rightarrow> nat \<Rightarrow> real" where
  "ulp_down r u k = (if k < 1022 \<and> r < 2 ^ 52 * u then ulp_down r (u / 2) (k + 1) else u)"
  by pat_completeness auto
termination
  by (relation "measure (\<lambda>(r, u, k). 1022 - k)") auto

declare ulp_up.simps [simp del] ulp_down.simps [simp del]

definition ulp :: "real \<Rightarrow> real" where
  "ulp r = (if 1 \<le> r then ulp_up r (1 / 2 ^ 52) 0 else ulp_down r (1 / 2 ^ 52) 0)"

text \<open>The smallest positive float; every float is a multiple of it.\<close>

definition least_float :: real where
  "least_float = 1 / 2 ^ 1074"

text \<open>The integer nearest to \<open>t\<close>, the even one of the two when \<open>t\<close> lies halfway.\<close>

definition nearest_even :: "real \<Rightarrow> int" where
  "nearest_even t =
     (let n = \<lfloor>t\<rfloor>; f = t - of_int n
      in if f < 1 / 2 then n else if 1 / 2 < f then n + 1 else if even n then n else n + 1)"

text \<open>
  Rounding to nearest, ties to even: a positive \<open>r\<close> goes to the nearest multiple of the
  spacing around it, and to infinity when that multiple is \<open>2 ^ 1024\<close>, which is no float.
\<close>

definition round_pos :: "real \<Rightarrow> float64" where
  "round_pos r =
     (let v = of_int (nearest_even (r / ulp r)) * ulp r
      in if 2 ^ 1024 \<le> v then PosInf else Num v)"

fun fneg :: "float64 \<Rightarrow> float64" where
  "fneg (Num a) = Num (- a)"
| "fneg PosInf = NegInf"
| "fneg NegInf = PosInf"
| "fneg NaN = NaN"

definition round64 :: "real \<Rightarrow> float64" where
  "round64 r = (if r = 0 then Num 0 else if 0 < r then round_pos r else fneg (round_pos (- r)))"

text \<open>A real number is a float when rounding leaves it as it is.\<close>

definition is_float :: "real \<Rightarrow> bool" where
  "is_float v = (round64 v = Num v)"

text \<open>
  The four operations: \<^verbatim>\<open>nan\<close> in gives \<^verbatim>\<open>nan\<close> out, the infinities follow the rules of the
  format (\<^verbatim>\<open>inf - inf\<close>, \<^verbatim>\<open>0 * inf\<close>, \<^verbatim>\<open>inf / inf\<close> and \<^verbatim>\<open>0 / 0\<close> are \<^verbatim>\<open>nan\<close>, a finite number divided
  by an infinity is zero, a nonzero number divided by zero is an infinity of its sign), and
  on finite numbers the exact result is rounded. No operation raises: numpy warns.
\<close>

fun negative :: "float64 \<Rightarrow> bool" where
  "negative (Num a) = (a < 0)"
| "negative NegInf = True"
| "negative _ = False"

definition signed_inf :: "bool \<Rightarrow> float64" where
  "signed_inf neg = (if neg then NegInf else PosInf)"

fun fadd :: "float64 \<Rightarrow> float64 \<Rightarrow> float64" where
  "fadd (Num a) (Num b) = round64 (a + b)"
| "fadd NaN _ = NaN"
| "fadd _ NaN = NaN"
| "fadd PosInf NegInf = NaN"
| "fadd NegInf PosInf = NaN"
| "fadd PosInf _ = PosInf"
| "fadd NegInf _ = NegInf"
| "fadd _ PosInf = PosInf"
| "fadd _ NegInf = NegInf"

definition fsub :: "float64 \<Rightarrow> float64 \<Rightarrow> float64" where
  "fsub a b = fadd a (fneg b)"

fun fmul :: "float64 \<Rightarrow> float64 \<Rightarrow> float64" where
  "fmul (Num a) (Num b) = round64 (a * b)"
| "fmul NaN _ = NaN"
| "fmul _ NaN = NaN"
| "fmul a b = (if a = Num 0 \<or> b = Num 0 then NaN else signed_inf (negative a \<noteq> negative b))"

fun fdiv :: "float64 \<Rightarrow> float64 \<Rightarrow> float64" where
  "fdiv (Num a) (Num b) =
     (if b = 0 then (if a = 0 then NaN else signed_inf (a < 0)) else round64 (a / b))"
| "fdiv NaN _ = NaN"
| "fdiv _ NaN = NaN"
| "fdiv (Num a) _ = Num 0"
| "fdiv a (Num b) = signed_inf (negative a \<noteq> (b < 0))"
| "fdiv _ _ = NaN"

subsection \<open>Array primitives\<close>

text \<open>
  Reading an array out of bounds raises \<^verbatim>\<open>IndexError\<close>; it is the only exception the two
  functions can raise on arrays of numbers.
\<close>

datatype error = IndexError

text \<open>
  \<^verbatim>\<open>np.searchsorted(a, v)\<close> with its default \<^verbatim>\<open>side='left'\<close>: a binary search for each
  key \<^verbatim>\<open>v\<close> that halves the window \<^verbatim>\<open>[lo, hi)\<close>, moving \<^verbatim>\<open>lo\<close> past the middle element when
  that element is smaller than the key. The result lies in \<^verbatim>\<open>0 .. len(a)\<close>. numpy documents
  the function for a sorted \<^verbatim>\<open>a\<close>, where the result is the leftmost insertion point of the
  key whatever the order of the probes; what it returns on an unsorted array is an accident of
  the search, and nothing below depends on it.
\<close>

function bsearch :: "real list \<Rightarrow> real \<Rightarrow> nat \<Rightarrow> nat \<Rightarrow> nat" where
  "bsearch a v lo hi =
     (if lo < hi then
        (let mid = lo + (hi - lo) div 2
         in if a ! mid < v then bsearch a v (mid + 1) hi else bsearch a v lo mid)
      else lo)"
  by pat_completeness auto
termination
  by (relation "measure (\<lambda>(a, v, lo, hi). hi - lo)") auto

declare bsearch.simps [simp del]

definition searchsorted :: "real list \<Rightarrow> real \<Rightarrow> int" where
  "searchsorted a v = int (bsearch a v 0 (length a))"

text \<open>
  \<^verbatim>\<open>a[i]\<close> for an integer \<^verbatim>\<open>i\<close>: a negative index counts from the end of the array, and an
  index outside \<^verbatim>\<open>-len(a) .. len(a) - 1\<close> raises \<^verbatim>\<open>IndexError\<close>.
\<close>

definition np_index :: "'a list \<Rightarrow> int \<Rightarrow> error + 'a" where
  "np_index a i =
     (if 0 \<le> i \<and> i < int (length a) then Inr (a ! nat i)
      else if - int (length a) \<le> i \<and> i < 0 then Inr (a ! nat (int (length a) + i))
      else Inl IndexError)"

text \<open>\<^verbatim>\<open>a[idx]\<close> for an array \<^verbatim>\<open>idx\<close> of integers: one read per index, all or nothing.\<close>

fun np_take :: "'a list \<Rightarrow> int list \<Rightarrow> error + 'a list" where
  "np_take a [] = Inr []"
| "np_take a (i # is) =
     (case np_index a i of
        Inl e \<Rightarrow> Inl e
      | Inr v \<Rightarrow> (case np_take a is of Inl e \<Rightarrow> Inl e | Inr vs \<Rightarrow> Inr (v # vs)))"

text \<open>
  \<^verbatim>\<open>y0[i, g]\<close> on a table stored as a list of rows: both indices follow the rule of
  \<open>np_index\<close>.
\<close>

definition np_index2 :: "'a list list \<Rightarrow> int \<Rightarrow> int \<Rightarrow> error + 'a" where
  "np_index2 t i g = (case np_index t i of Inl e \<Rightarrow> Inl e | Inr row \<Rightarrow> np_index row g)"

text \<open>
  Two arrays that meet in one operation are broadcast to a common length: equal lengths
  pair up as they are, an array of length one is repeated, and any other pair of lengths
  is a shape mismatch, which an indexing operation reports as \<^verbatim>\<open>IndexError\<close>.
\<close>

definition broadcast :: "'a list \<Rightarrow> 'b list \<Rightarrow> error + ('a list \<times> 'b list)" where
  "broadcast a b =
     (if length a = length b then Inr (a, b)
      else if length a = 1 then Inr (replicate (length b) (hd a), b)
      else if length b = 1 then Inr (a, replicate (length a) (hd b))
      else Inl IndexError)"

fun np_take_pairs :: "'a list list \<Rightarrow> (int \<times> int) list \<Rightarrow> error + 'a list" where
  "np_take_pairs t [] = Inr []"
| "np_take_pairs t ((i, g) # ps) =
     (case np_index2 t i g of
        Inl e \<Rightarrow> Inl e
      | Inr v \<Rightarrow> (case np_take_pairs t ps of Inl e \<Rightarrow> Inl e | Inr vs \<Rightarrow> Inr (v # vs)))"

text \<open>\<^verbatim>\<open>y0[idx, group]\<close> for two index arrays: broadcast, then one read per pair.\<close>

definition np_take2 :: "'a list list \<Rightarrow> int list \<Rightarrow> int list \<Rightarrow> error + 'a list" where
  "np_take2 t idx grp =
     (case broadcast idx grp of Inl e \<Rightarrow> Inl e | Inr (is, gs) \<Rightarrow> np_take_pairs t (zip is gs))"

text \<open>
  An array of length one that meets a longer or an empty one in an arithmetic operation is
  repeated to that length. The weights meet what a table read returns: as many values as
  there are queries or, for a single query, as many as there are groups (lemma
  \<open>np_take2_length\<close>), so the lengths are equal or the weights are a single one.
\<close>

definition stretch :: "nat \<Rightarrow> 'a list \<Rightarrow> 'a list" where
  "stretch n a = (if length a = n then a else replicate n (hd a))"

text \<open>\<^verbatim>\<open>wl * yl + (1 - wl) * yr\<close> for one entry, in floats.\<close>

definition blend :: "float64 \<Rightarrow> real \<Rightarrow> real \<Rightarrow> float64" where
  "blend wl yl yr = fadd (fmul wl (Num yl)) (fmul (fsub (Num 1) wl) (Num yr))"

subsection \<open>The univariate function\<close>

definition interpolate :: "real list \<Rightarrow> real list \<Rightarrow> real list \<Rightarrow> error + float64 list" where
  "interpolate x0 y0 x =
     (let idx = map (searchsorted x0) x in
      case np_take x0 (map (\<lambda>i. i - 1) idx) of Inl e \<Rightarrow> Inl e | Inr xl \<Rightarrow>
      (case np_take x0 idx of Inl e \<Rightarrow> Inl e | Inr xr \<Rightarrow>
      (let dl = map2 (\<lambda>a b. fsub (Num a) (Num b)) x xl;
           dr = map2 (\<lambda>a b. fsub (Num a) (Num b)) xr x;
           d = map2 fadd dl dr;
           wl = map2 fdiv dr d in
       case np_take y0 (map (\<lambda>i. i - 1) idx) of Inl e \<Rightarrow> Inl e | Inr yl \<Rightarrow>
       (case np_take y0 idx of Inl e \<Rightarrow> Inl e | Inr yr \<Rightarrow>
          Inr (map (\<lambda>(w, a, b). blend w a b) (zip wl (zip yl yr)))))))"

subsection \<open>The grouped function\<close>

text \<open>
  The weights are computed from the queries alone, as in the univariate function. The group
  array enters in the two table reads, and the weights are stretched to the length of what
  those reads return: when there is one query and several groups, the one weight serves
  every group.
\<close>

definition interpolate_grouped ::
  "real list \<Rightarrow> real list list \<Rightarrow> real list \<Rightarrow> int list \<Rightarrow> error + float64 list" where
  "interpolate_grouped x0 y0 x grp =
     (let idx = map (searchsorted x0) x in
      case np_take x0 (map (\<lambda>i. i - 1) idx) of Inl e \<Rightarrow> Inl e | Inr xl \<Rightarrow>
      (case np_take x0 idx of Inl e \<Rightarrow> Inl e | Inr xr \<Rightarrow>
      (let dl = map2 (\<lambda>a b. fsub (Num a) (Num b)) x xl;
           dr = map2 (\<lambda>a b. fsub (Num a) (Num b)) xr x;
           d = map2 fadd dl dr;
           wl = map2 fdiv dr d in
       case np_take2 y0 (map (\<lambda>i. i - 1) idx) grp of Inl e \<Rightarrow> Inl e | Inr yl \<Rightarrow>
       (case np_take2 y0 idx grp of Inl e \<Rightarrow> Inl e | Inr yr \<Rightarrow>
          Inr (map (\<lambda>(w, a, b). blend w a b) (zip (stretch (length yl) wl) (zip yl yr)))))))"

subsection \<open>Notions of the specification\<close>

text \<open>
  The leftmost insertion point of \<open>v\<close> in \<open>a\<close>: the smallest index \<open>idx\<close> with
  \<open>a[idx] \<ge> v\<close>, and the length of \<open>a\<close> when every element is smaller than \<open>v\<close>.
\<close>

definition leftmost :: "real list \<Rightarrow> real \<Rightarrow> nat" where
  "leftmost a v = length (takeWhile (\<lambda>u. u < v) a)"

text \<open>Column \<open>g\<close> of a table, \<^verbatim>\<open>y0[:, g]\<close>, for a column index that every row has.\<close>

definition column :: "'a list list \<Rightarrow> int \<Rightarrow> 'a list" where
  "column t g = map (\<lambda>row. row ! nat g) t"

section \<open>Auxiliary facts\<close>

subsection \<open>Basic facts\<close>

lemma error_all_eq: "((e::error) = e') = True"
  by (cases e; cases e') simp

lemma nat_int_pred: "nat (int n - 1) = n - 1"
  by linarith

lemma leftmost_le: "leftmost a v \<le> length a"
  by (simp add: leftmost_def length_takeWhile_le)

lemma leftmost_below: "i < leftmost a v \<Longrightarrow> a ! i < v"
  unfolding leftmost_def
  by (metis nth_mem set_takeWhileD takeWhile_nth)

lemma leftmost_at: "leftmost a v < length a \<Longrightarrow> v \<le> a ! leftmost a v"
  unfolding leftmost_def
  using nth_length_takeWhile [of "\<lambda>u. u < v" a] by simp

lemma leftmost_past: "\<forall>u\<in>set a. u < v \<Longrightarrow> leftmost a v = length a"
  by (induction a) (simp_all add: leftmost_def)

lemma leftmost_before: "a \<noteq> [] \<Longrightarrow> v \<le> a ! 0 \<Longrightarrow> leftmost a v = 0"
  by (cases a) (simp_all add: leftmost_def)

lemma leftmost_between:
  assumes "sorted_wrt (<) a" and "0 < i" and "i < length a"
    and "a ! (i - 1) < v" and "v \<le> a ! i"
  shows "leftmost a v = i"
proof -
  have s: "sorted a" using assms(1) by (rule strict_sorted_imp_sorted)
  have "\<not> i < leftmost a v"
    using leftmost_below [of i a v] assms(5) by auto
  moreover have "\<not> leftmost a v < i"
  proof
    assume h: "leftmost a v < i"
    then have "leftmost a v < length a" and "leftmost a v \<le> i - 1"
      using assms(3) by simp_all
    then have "v \<le> a ! leftmost a v" and "a ! leftmost a v \<le> a ! (i - 1)"
      using leftmost_at [of a v] sorted_nth_mono [OF s, of "leftmost a v" "i - 1"] assms(2,3)
      by simp_all
    with assms(4) show False by simp
  qed
  ultimately show ?thesis by simp
qed

lemma leftmost_interior:
  assumes "a \<noteq> []" and "a ! 0 < v" and "v \<le> a ! (length a - 1)"
  shows "0 < leftmost a v \<and> leftmost a v < length a"
proof -
  have "leftmost a v \<noteq> 0"
  proof
    assume "leftmost a v = 0"
    with leftmost_at [of a v] assms(1,2) show False by simp
  qed
  moreover have "leftmost a v \<noteq> length a"
  proof
    assume h: "leftmost a v = length a"
    have "length a - 1 < leftmost a v" using h assms(1) by simp
    from leftmost_below [OF this] assms(3) show False by simp
  qed
  ultimately show ?thesis using leftmost_le [of a v] by simp
qed

subsection \<open>The binary search finds the leftmost insertion point\<close>

lemma bsearch_step_right:
  "lo < hi \<Longrightarrow> a ! (lo + (hi - lo) div 2) < v \<Longrightarrow>
   bsearch a v lo hi = bsearch a v (lo + (hi - lo) div 2 + 1) hi"
  by (subst bsearch.simps) (simp add: Let_def)

lemma bsearch_step_left:
  "lo < hi \<Longrightarrow> \<not> a ! (lo + (hi - lo) div 2) < v \<Longrightarrow>
   bsearch a v lo hi = bsearch a v lo (lo + (hi - lo) div 2)"
  by (subst bsearch.simps) (simp add: Let_def)

lemma bsearch_range: "lo \<le> hi \<Longrightarrow> lo \<le> bsearch a v lo hi \<and> bsearch a v lo hi \<le> hi"
proof (induction a v lo hi rule: bsearch.induct)
  case (1 a v lo hi)
  show ?case
  proof (cases "lo < hi")
    case False
    with "1.prems" show ?thesis by (simp add: bsearch.simps)
  next
    case True
    define mid where "mid = lo + (hi - lo) div 2"
    have m: "lo \<le> mid" "mid < hi" using True by (auto simp: mid_def)
    show ?thesis
    proof (cases "a ! mid < v")
      case right: True
      have "mid + 1 \<le> bsearch a v (mid + 1) hi \<and> bsearch a v (mid + 1) hi \<le> hi"
        using "1.IH"(1) [OF True mid_def right] m by simp
      then show ?thesis
        using m bsearch_step_right [OF True, of a v] right by (simp add: mid_def)
    next
      case left: False
      have "lo \<le> bsearch a v lo mid \<and> bsearch a v lo mid \<le> mid"
        using "1.IH"(2) [OF True mid_def left] m by simp
      then show ?thesis
        using m bsearch_step_left [OF True, of a v] left by (simp add: mid_def)
    qed
  qed
qed

lemma bsearch_sorted:
  "sorted a \<Longrightarrow> lo \<le> hi \<Longrightarrow> hi \<le> length a \<Longrightarrow>
   (\<forall>i<lo. a ! i < v) \<Longrightarrow> (\<forall>i. hi \<le> i \<and> i < length a \<longrightarrow> v \<le> a ! i) \<Longrightarrow>
   (\<forall>i<bsearch a v lo hi. a ! i < v) \<and>
   (\<forall>i. bsearch a v lo hi \<le> i \<and> i < length a \<longrightarrow> v \<le> a ! i)"
proof (induction a v lo hi rule: bsearch.induct)
  case (1 a v lo hi)
  show ?case
  proof (cases "lo < hi")
    case False
    with "1.prems" have "hi = lo" by simp
    with "1.prems" False show ?thesis by (simp add: bsearch.simps)
  next
    case True
    define mid where "mid = lo + (hi - lo) div 2"
    have m: "lo \<le> mid" "mid < hi" using True by (auto simp: mid_def)
    show ?thesis
    proof (cases "a ! mid < v")
      case right: True
      have below: "\<forall>i<mid + 1. a ! i < v"
      proof (intro allI impI)
        fix i assume "i < mid + 1"
        then have "i \<le> mid" by simp
        then have "a ! i \<le> a ! mid"
          using \<open>sorted a\<close> m "1.prems"(3) by (simp add: sorted_nth_mono)
        with right show "a ! i < v" by simp
      qed
      have eq: "bsearch a v lo hi = bsearch a v (mid + 1) hi"
        using bsearch_step_right [OF True, of a v] right by (simp add: mid_def)
      show ?thesis
        unfolding eq
        using "1.IH"(1) [OF True mid_def right \<open>sorted a\<close> _ "1.prems"(3) below "1.prems"(5)] m
        by simp
    next
      case left: False
      have above: "\<forall>i. mid \<le> i \<and> i < length a \<longrightarrow> v \<le> a ! i"
      proof (intro allI impI)
        fix i assume "mid \<le> i \<and> i < length a"
        then have "a ! mid \<le> a ! i"
          using \<open>sorted a\<close> by (simp add: sorted_nth_mono)
        with left show "v \<le> a ! i" by simp
      qed
      have eq: "bsearch a v lo hi = bsearch a v lo mid"
        using bsearch_step_left [OF True, of a v] left by (simp add: mid_def)
      show ?thesis
        unfolding eq
        using "1.IH"(2) [OF True mid_def left \<open>sorted a\<close> _ _ "1.prems"(4) above] m "1.prems"(3)
        by simp
    qed
  qed
qed

lemma searchsorted_leftmost:
  assumes "sorted a"
  shows "searchsorted a v = int (leftmost a v)"
proof -
  let ?r = "bsearch a v 0 (length a)"
  have r: "?r \<le> length a" using bsearch_range [of 0 "length a" a v] by simp
  have p: "(\<forall>i<?r. a ! i < v) \<and> (\<forall>i. ?r \<le> i \<and> i < length a \<longrightarrow> v \<le> a ! i)"
    using bsearch_sorted [OF assms, of 0 "length a" v] by simp
  have "\<not> ?r < leftmost a v"
  proof
    assume h: "?r < leftmost a v"
    then have "a ! ?r < v" by (rule leftmost_below)
    moreover have "?r < length a" using h leftmost_le [of a v] by simp
    ultimately show False using p by force
  qed
  moreover have "\<not> leftmost a v < ?r"
  proof
    assume h: "leftmost a v < ?r"
    then have "a ! leftmost a v < v" using p by simp
    moreover have "leftmost a v < length a" using h r by simp
    ultimately show False using leftmost_at [of a v] by simp
  qed
  ultimately show ?thesis by (simp add: searchsorted_def)
qed

subsection \<open>One query, and a batch as its queries one by one\<close>

lemma interpolate_Cons:
  "interpolate x0 y0 (x # xs) =
     (case interpolate x0 y0 [x] of
        Inl e \<Rightarrow> Inl e
      | Inr v \<Rightarrow> (case interpolate x0 y0 xs of Inl e \<Rightarrow> Inl e | Inr vs \<Rightarrow> Inr (v @ vs)))"
  by (auto simp: interpolate_def Let_def error_all_eq split: sum.splits)

lemma interpolate_batch:
  "\<forall>z\<in>set zs. interpolate x0 y0 [q z] = Inr [f z] \<Longrightarrow>
   interpolate x0 y0 (map q zs) = Inr (map f zs)"
proof (induction zs)
  case Nil
  show ?case by (simp add: interpolate_def)
next
  case (Cons z zs)
  then have "interpolate x0 y0 [q z] = Inr [f z]"
    and "interpolate x0 y0 (map q zs) = Inr (map f zs)"
    by simp_all
  then show ?case
    by (simp add: interpolate_Cons [of x0 y0 "q z" "map q zs"])
qed

lemma np_take_fails: "i \<in> set idx \<Longrightarrow> np_index a i = Inl e \<Longrightarrow> np_take a idx = Inl e"
  by (induction idx) (auto simp: error_all_eq split: sum.splits)

lemma np_index_length: "np_index a (int (length a)) = Inl IndexError"
  by (simp add: np_index_def)

lemma np_index_inside: "k < length a \<Longrightarrow> np_index a (int k) = Inr (a ! k)"
  by (simp add: np_index_def)

lemma np_index_minus_one: "a \<noteq> [] \<Longrightarrow> np_index a (- 1) = Inr (a ! (length a - 1))"
  by (cases a) (simp_all add: np_index_def)

lemma interpolate_single:
  assumes "searchsorted x0 x = int k" and "0 < k" and "k < length x0" and "k < length y0"
  shows "interpolate x0 y0 [x] =
           Inr [blend (fdiv (fsub (Num (x0 ! k)) (Num x))
                        (fadd (fsub (Num x) (Num (x0 ! (k - 1)))) (fsub (Num (x0 ! k)) (Num x))))
                  (y0 ! (k - 1)) (y0 ! k)]"
  using assms by (simp add: interpolate_def np_index_def nat_int_pred)

lemma interpolate_single_wrap:
  assumes "searchsorted x0 x = 0" and "x0 \<noteq> []" and "y0 \<noteq> []"
  shows "interpolate x0 y0 [x] =
           Inr [blend (fdiv (fsub (Num (x0 ! 0)) (Num x))
                        (fadd (fsub (Num x) (Num (x0 ! (length x0 - 1)))) (fsub (Num (x0 ! 0)) (Num x))))
                  (y0 ! (length y0 - 1)) (y0 ! 0)]"
  using assms np_index_inside [of 0 x0] np_index_inside [of 0 y0]
  by (simp add: interpolate_def np_index_minus_one)

lemma interpolate_past:
  assumes "sorted x0" and "x \<in> set xs" and "\<forall>u\<in>set x0. u < x"
  shows "interpolate x0 y0 xs = Inl IndexError"
proof -
  have "searchsorted x0 x = int (length x0)"
    using searchsorted_leftmost [OF assms(1)] leftmost_past [OF assms(3)] by simp
  then have "np_index x0 (searchsorted x0 x) = Inl IndexError"
    by (simp add: np_index_length)
  moreover have "searchsorted x0 x \<in> set (map (searchsorted x0) xs)"
    using assms(2) by simp
  ultimately have "np_take x0 (map (searchsorted x0) xs) = Inl IndexError"
    by (rule np_take_fails [rotated])
  then show ?thesis
    by (simp add: interpolate_def Let_def error_all_eq split: sum.splits)
qed

subsection \<open>The spacing of the floats\<close>

lemma ulp_up_pos: "0 < u \<Longrightarrow> 0 < ulp_up r u k"
  by (induction r u k rule: ulp_up.induct) (subst ulp_up.simps, simp)

lemma ulp_down_pos: "0 < u \<Longrightarrow> 0 < ulp_down r u k"
  by (induction r u k rule: ulp_down.induct) (subst ulp_down.simps, simp)

lemma ulp_pos: "0 < ulp r"
  by (simp add: ulp_def ulp_up_pos ulp_down_pos)

lemma ulp_up_lower: "2 ^ 52 * u \<le> r \<Longrightarrow> 2 ^ 52 * ulp_up r u k \<le> r"
  by (induction r u k rule: ulp_up.induct) (subst ulp_up.simps, simp)

lemma ulp_up_step:
  "k < 1023 \<and> 2 ^ 53 * u \<le> r \<Longrightarrow> ulp_up r u k = ulp_up r (2 * u) (k + 1)"
  by (subst ulp_up.simps) simp

lemma ulp_up_stop: "\<not> (k < 1023 \<and> 2 ^ 53 * u \<le> r) \<Longrightarrow> ulp_up r u k = u"
  by (subst ulp_up.simps) auto

lemma ulp_down_step:
  "k < 1022 \<and> r < 2 ^ 52 * u \<Longrightarrow> ulp_down r u k = ulp_down r (u / 2) (k + 1)"
  by (subst ulp_down.simps) simp

lemma ulp_down_stop: "\<not> (k < 1022 \<and> r < 2 ^ 52 * u) \<Longrightarrow> ulp_down r u k = u"
  by (subst ulp_down.simps) auto

lemma ulp_up_upper:
  "k \<le> 1023 \<Longrightarrow> u = 2 ^ k / 2 ^ 52 \<Longrightarrow>
   ulp_up r u k = 2 ^ 1023 / 2 ^ 52 \<or> r < 2 ^ 53 * ulp_up r u k"
proof (induction r u k rule: ulp_up.induct)
  case (1 r u k)
  show ?case
  proof (cases "k < 1023 \<and> 2 ^ 53 * u \<le> r")
    case True
    have k1: "k + 1 \<le> 1023" using True by simp
    have u2: "2 * u = 2 ^ (k + 1) / 2 ^ 52" unfolding "1.prems"(2) by (simp only: power_add) simp
    from "1.IH" [OF True k1 u2] show ?thesis unfolding ulp_up_step [OF True] .
  next
    case False
    show ?thesis
    proof (cases "k < 1023")
      case True
      with False have "r < 2 ^ 53 * u" by auto
      then show ?thesis unfolding ulp_up_stop [OF False] ..
    next
      case k: False
      with "1.prems"(1) have "k = 1023" by simp
      then have "u = 2 ^ 1023 / 2 ^ 52" using "1.prems"(2) by (simp only:)
      then show ?thesis unfolding ulp_up_stop [OF False] ..
    qed
  qed
qed

lemma ulp_up_grid:
  "k \<le> 1023 \<Longrightarrow> u = 2 ^ k / 2 ^ 52 \<Longrightarrow> \<exists>j\<le>1023. ulp_up r u k = 2 ^ j / 2 ^ 52"
proof (induction r u k rule: ulp_up.induct)
  case (1 r u k)
  show ?case
  proof (cases "k < 1023 \<and> 2 ^ 53 * u \<le> r")
    case True
    have k1: "k + 1 \<le> 1023" using True by simp
    have u2: "2 * u = 2 ^ (k + 1) / 2 ^ 52" unfolding "1.prems"(2) by (simp only: power_add) simp
    from "1.IH" [OF True k1 u2] show ?thesis unfolding ulp_up_step [OF True] .
  next
    case False
    show ?thesis unfolding ulp_up_stop [OF False] using "1.prems" by blast
  qed
qed

lemma ulp_down_upper: "r < 2 ^ 53 * u \<Longrightarrow> r < 2 ^ 53 * ulp_down r u k"
  by (induction r u k rule: ulp_down.induct) (subst ulp_down.simps, simp)

lemma ulp_down_lower:
  "k \<le> 1022 \<Longrightarrow> u = 1 / (2 ^ 52 * 2 ^ k) \<Longrightarrow>
   ulp_down r u k = 1 / (2 ^ 52 * 2 ^ 1022) \<or> 2 ^ 52 * ulp_down r u k \<le> r"
proof (induction r u k rule: ulp_down.induct)
  case (1 r u k)
  show ?case
  proof (cases "k < 1022 \<and> r < 2 ^ 52 * u")
    case True
    have k1: "k + 1 \<le> 1022" using True by simp
    have u2: "u / 2 = 1 / (2 ^ 52 * 2 ^ (k + 1))" unfolding "1.prems"(2) by (simp only: power_add) simp
    from "1.IH" [OF True k1 u2] show ?thesis unfolding ulp_down_step [OF True] .
  next
    case False
    show ?thesis
    proof (cases "k < 1022")
      case True
      with False have "2 ^ 52 * u \<le> r" by auto
      then show ?thesis unfolding ulp_down_stop [OF False] ..
    next
      case k: False
      with "1.prems"(1) have "k = 1022" by simp
      then have "u = 1 / (2 ^ 52 * 2 ^ 1022)" using "1.prems"(2) by (simp only:)
      then show ?thesis unfolding ulp_down_stop [OF False] ..
    qed
  qed
qed

lemma ulp_down_grid:
  "k \<le> 1022 \<Longrightarrow> u = 1 / (2 ^ 52 * 2 ^ k) \<Longrightarrow>
   \<exists>j\<le>1022. ulp_down r u k = 1 / (2 ^ 52 * 2 ^ j)"
proof (induction r u k rule: ulp_down.induct)
  case (1 r u k)
  show ?case
  proof (cases "k < 1022 \<and> r < 2 ^ 52 * u")
    case True
    have k1: "k + 1 \<le> 1022" using True by simp
    have u2: "u / 2 = 1 / (2 ^ 52 * 2 ^ (k + 1))" unfolding "1.prems"(2) by (simp only: power_add) simp
    from "1.IH" [OF True k1 u2] show ?thesis unfolding ulp_down_step [OF True] .
  next
    case False
    show ?thesis unfolding ulp_down_stop [OF False] using "1.prems" by blast
  qed
qed

lemma least_float_pos: "0 < least_float"
  by (simp add: least_float_def)

lemma ulp_grid: "\<exists>j\<le>2045. ulp r = 2 ^ j * least_float"
proof (cases "1 \<le> r")
  case True
  obtain j where j: "j \<le> 1023" "ulp_up r (1 / 2 ^ 52) 0 = 2 ^ j / 2 ^ 52"
    using ulp_up_grid [of 0 "1 / 2 ^ 52" r] by auto
  have "(2::real) ^ j / 2 ^ 52 = 2 ^ (j + 1022) / 2 ^ 1074"
    by (simp add: power_add)
  with j True have "j + 1022 \<le> 2045 \<and> ulp r = 2 ^ (j + 1022) * least_float"
    by (simp add: ulp_def least_float_def)
  then show ?thesis by blast
next
  case False
  obtain j where j: "j \<le> 1022" "ulp_down r (1 / 2 ^ 52) 0 = 1 / (2 ^ 52 * 2 ^ j)"
    using ulp_down_grid [of 0 "1 / 2 ^ 52" r] by auto
  have "(2::real) ^ 1022 = 2 ^ (1022 - j) * 2 ^ j"
    using j(1) by (simp add: power_add [symmetric])
  then have "1 / ((2::real) ^ 52 * 2 ^ j) = 2 ^ (1022 - j) / 2 ^ 1074"
    by (simp add: field_simps power_add [of 2 52 1022, simplified])
  with j False have "1022 - j \<le> 2045 \<and> ulp r = 2 ^ (1022 - j) * least_float"
    by (simp add: ulp_def least_float_def)
  then show ?thesis by blast
qed

lemma ulp_lower: "ulp r = least_float \<or> 2 ^ 52 * ulp r \<le> r"
proof (cases "1 \<le> r")
  case True
  then have "2 ^ 52 * (1 / 2 ^ 52) \<le> r" by simp
  from ulp_up_lower [OF this] True show ?thesis by (simp add: ulp_def)
next
  case False
  have "ulp_down r (1 / 2 ^ 52) 0 = 1 / (2 ^ 52 * 2 ^ 1022) \<or>
        2 ^ 52 * ulp_down r (1 / 2 ^ 52) 0 \<le> r"
    by (rule ulp_down_lower) simp_all
  with False show ?thesis by (simp add: ulp_def least_float_def)
qed

lemma ulp_upper: "ulp r = 2 ^ 971 \<or> r < 2 ^ 53 * ulp r"
proof (cases "1 \<le> r")
  case True
  have "ulp_up r (1 / 2 ^ 52) 0 = 2 ^ 1023 / 2 ^ 52 \<or> r < 2 ^ 53 * ulp_up r (1 / 2 ^ 52) 0"
    by (rule ulp_up_upper) simp_all
  with True show ?thesis by (simp add: ulp_def)
next
  case False
  then have "r < 2 ^ 53 * (1 / 2 ^ 52)" by simp
  from ulp_down_upper [OF this] False show ?thesis by (simp add: ulp_def)
qed

subsection \<open>Rounding\<close>

lemma nearest_even_ge: "of_int m \<le> t \<Longrightarrow> m \<le> nearest_even t"
  by (simp add: nearest_even_def Let_def le_floor_iff) linarith

lemma nearest_even_le: "t \<le> of_int m \<Longrightarrow> nearest_even t \<le> m"
  unfolding nearest_even_def Let_def by (auto; linarith)

lemma nearest_even_int: "nearest_even (of_int m) = m"
  by (simp add: nearest_even_def)

lemma nearest_even_error: "\<bar>of_int (nearest_even t) - t\<bar> \<le> 1 / 2"
  unfolding nearest_even_def Let_def by (auto; linarith)

lemma round_pos_positive:
  assumes "least_float \<le> r"
  shows "round_pos r = PosInf \<or> (\<exists>v. round_pos r = Num v \<and> 0 < v)"
proof -
  have u: "0 < ulp r" by (rule ulp_pos)
  have "ulp r \<le> r"
  proof -
    from ulp_lower [of r] show ?thesis
    proof
      assume "ulp r = least_float"
      with assms show ?thesis by simp
    next
      assume "2 ^ 52 * ulp r \<le> r"
      moreover have "ulp r \<le> 2 ^ 52 * ulp r" using u by simp
      ultimately show ?thesis by linarith
    qed
  qed
  then have "of_int 1 \<le> r / ulp r" using u by (simp add: le_divide_eq)
  then have "1 \<le> nearest_even (r / ulp r)" by (rule nearest_even_ge)
  then have "0 < of_int (nearest_even (r / ulp r)) * ulp r" using u by simp
  then show ?thesis by (simp add: round_pos_def Let_def)
qed

lemma round_pos_grid:
  assumes "round_pos r = Num v"
  shows "\<exists>n::int. v = of_int n * least_float"
proof -
  obtain j where j: "ulp r = 2 ^ j * least_float" using ulp_grid [of r] by blast
  from assms have "v = of_int (nearest_even (r / ulp r)) * ulp r"
    by (simp add: round_pos_def Let_def split: if_splits)
  then have "v = of_int (nearest_even (r / ulp r) * 2 ^ j) * least_float"
    unfolding j by simp
  then show ?thesis ..
qed

lemma round_pos_not_nan: "round_pos r \<noteq> NaN"
  by (simp add: round_pos_def Let_def)

lemma round64_not_nan: "round64 r \<noteq> NaN"
  using round_pos_not_nan [of r] round_pos_not_nan [of "- r"]
  by (cases "round_pos (- r)") (auto simp: round64_def)

lemma round64_grid:
  assumes "round64 r = Num v"
  shows "\<exists>n::int. v = of_int n * least_float"
proof -
  consider "r = 0" | "0 < r" | "r < 0" by linarith
  then show ?thesis
  proof cases
    case 1
    with assms have "v = of_int 0 * least_float" by (simp add: round64_def)
    then show ?thesis ..
  next
    case 2
    with assms show ?thesis by (simp add: round64_def round_pos_grid)
  next
    case 3
    with assms have "round_pos (- r) = Num (- v)"
      by (cases "round_pos (- r)") (auto simp: round64_def)
    then obtain n :: int where "- v = of_int n * least_float" using round_pos_grid by blast
    then have "v = of_int (- n) * least_float" by simp
    then show ?thesis ..
  qed
qed

lemma round64_nonzero:
  assumes "least_float \<le> \<bar>r\<bar>"
  shows "round64 r \<noteq> Num 0"
proof (cases "0 < r")
  case True
  with assms round_pos_positive [of r] show ?thesis by (auto simp: round64_def)
next
  case False
  with assms least_float_pos have "r < 0" "least_float \<le> - r" by auto
  with round_pos_positive [of "- r"] show ?thesis by (auto simp: round64_def)
qed

lemma grid_apart:
  fixes a b :: real
  assumes "a = of_int m * least_float" and "b = of_int n * least_float" and "a \<noteq> b"
  shows "least_float \<le> \<bar>a - b\<bar>"
proof -
  have "m \<noteq> n" using assms by auto
  then have "1 \<le> \<bar>m - n\<bar>" by simp
  then have "1 \<le> \<bar>(of_int (m - n) :: real)\<bar>" by (metis of_int_1_le_iff of_int_abs)
  then have "1 * least_float \<le> \<bar>(of_int (m - n) :: real)\<bar> * least_float"
    using least_float_pos by (simp only: mult_le_cancel_right_pos)
  moreover have "a - b = of_int (m - n) * least_float"
    unfolding assms(1,2) by (simp add: left_diff_distrib)
  ultimately show ?thesis using least_float_pos by (simp add: abs_mult)
qed

lemma is_float_grid: "is_float v \<Longrightarrow> \<exists>n::int. v = of_int n * least_float"
  unfolding is_float_def by (rule round64_grid)

lemma is_float_0: "is_float 0"
  by (simp add: is_float_def round64_def)

lemma float_difference:
  assumes "is_float a" and "is_float b" and "a \<noteq> b"
  shows "round64 (a - b) \<noteq> Num 0"
proof -
  obtain m n :: int where "a = of_int m * least_float" "b = of_int n * least_float"
    using assms(1,2) is_float_grid by blast
  from grid_apart [OF this assms(3)] show ?thesis by (rule round64_nonzero)
qed

lemma round64_again:
  assumes "round64 r = Num v" and "v \<noteq> 0"
  shows "round64 v \<noteq> Num 0"
proof -
  obtain n :: int where "v = of_int n * least_float" using assms(1) round64_grid by blast
  moreover have "(0::real) = of_int 0 * least_float" by simp
  ultimately have "least_float \<le> \<bar>v - 0\<bar>" using assms(2) by (rule grid_apart)
  then show ?thesis using round64_nonzero [of v] by simp
qed

lemma round64_1: "round64 1 = Num 1"
  by (simp add: round64_def round_pos_def ulp_def ulp_up.simps nearest_even_def)

text \<open>At a knot \<open>dr\<close> is zero, and so is the weight, whatever the other knot is.\<close>

lemma weight_at_knot:
  assumes "is_float x" and "is_float xl" and "x \<noteq> xl"
  shows "fdiv (fsub (Num x) (Num x)) (fadd (fsub (Num x) (Num xl)) (fsub (Num x) (Num x))) = Num 0"
proof -
  have dr: "fsub (Num x) (Num x) = Num 0" by (simp add: fsub_def round64_def)
  have dl: "fsub (Num x) (Num xl) = round64 (x - xl)" by (simp add: fsub_def)
  have nz: "round64 (x - xl) \<noteq> Num 0" using assms by (rule float_difference)
  have "fdiv (Num 0) (fadd (round64 (x - xl)) (Num 0)) = Num 0"
  proof (cases "round64 (x - xl)")
    case (Num a)
    with nz have "a \<noteq> 0" by simp
    with Num have "round64 a \<noteq> Num 0" by (rule round64_again)
    moreover have "round64 a \<noteq> NaN" by (rule round64_not_nan)
    ultimately have "fdiv (Num 0) (round64 a) = Num 0"
      by (cases "round64 a") (simp_all add: round64_def)
    with Num show ?thesis by simp
  next
    case PosInf
    then show ?thesis by simp
  next
    case NegInf
    then show ?thesis by simp
  next
    case NaN
    with round64_not_nan show ?thesis by blast
  qed
  then show ?thesis by (simp only: dr dl)
qed

lemma blend_zero: "is_float yr \<Longrightarrow> blend (Num 0) yl yr = Num yr"
  by (simp add: blend_def fsub_def round64_1 is_float_def) (simp add: round64_def)

subsection \<open>Queries inside the knot range\<close>

lemma interpolate_interior:
  assumes "sorted_wrt (<) x0" and "0 < k" and "k < length x0" and "length y0 = length x0"
    and "x0 ! (k - 1) < x" and "x \<le> x0 ! k"
  shows "searchsorted x0 x = int k"
    and "interpolate x0 y0 [x] =
           Inr [blend (fdiv (fsub (Num (x0 ! k)) (Num x))
                        (fadd (fsub (Num x) (Num (x0 ! (k - 1)))) (fsub (Num (x0 ! k)) (Num x))))
                  (y0 ! (k - 1)) (y0 ! k)]"
proof -
  have "sorted x0" using assms(1) by (rule strict_sorted_imp_sorted)
  then show s: "searchsorted x0 x = int k"
    using searchsorted_leftmost [of x0 x] leftmost_between [OF assms(1,2,3,5,6)] by simp
  show "interpolate x0 y0 [x] =
           Inr [blend (fdiv (fsub (Num (x0 ! k)) (Num x))
                        (fadd (fsub (Num x) (Num (x0 ! (k - 1)))) (fsub (Num (x0 ! k)) (Num x))))
                  (y0 ! (k - 1)) (y0 ! k)]"
    using assms(3,4) by (intro interpolate_single [OF s assms(2,3)]) simp
qed

lemma interpolate_leftmost:
  assumes "sorted_wrt (<) x0" and "2 \<le> length x0" and "length y0 = length x0"
    and "x0 ! 0 < x" and "x \<le> x0 ! (length x0 - 1)"
  shows "searchsorted x0 x = int (leftmost x0 x)"
    and "interpolate x0 y0 [x] =
           Inr [let idx = leftmost x0 x;
                    dl = fsub (Num x) (Num (x0 ! (idx - 1)));
                    dr = fsub (Num (x0 ! idx)) (Num x);
                    wl = fdiv dr (fadd dl dr)
                in fadd (fmul wl (Num (y0 ! (idx - 1)))) (fmul (fsub (Num 1) wl) (Num (y0 ! idx)))]"
proof -
  have ne: "x0 \<noteq> []" using assms(2) by auto
  have k: "0 < leftmost x0 x" "leftmost x0 x < length x0"
    using leftmost_interior [OF ne assms(4,5)] by simp_all
  have lo: "x0 ! (leftmost x0 x - 1) < x"
    using k by (intro leftmost_below) simp
  have hi: "x \<le> x0 ! leftmost x0 x"
    using k by (intro leftmost_at)
  show "searchsorted x0 x = int (leftmost x0 x)"
    by (rule interpolate_interior(1) [OF assms(1) k assms(3) lo hi])
  show "interpolate x0 y0 [x] =
           Inr [let idx = leftmost x0 x;
                    dl = fsub (Num x) (Num (x0 ! (idx - 1)));
                    dr = fsub (Num (x0 ! idx)) (Num x);
                    wl = fdiv dr (fadd dl dr)
                in fadd (fmul wl (Num (y0 ! (idx - 1)))) (fmul (fsub (Num 1) wl) (Num (y0 ! idx)))]"
    using interpolate_interior(2) [OF assms(1) k assms(3) lo hi]
    by (simp add: Let_def blend_def)
qed

lemma interpolate_first_knot:
  assumes "sorted_wrt (<) x0" and "2 \<le> length x0" and "length y0 = length x0"
    and "is_float (x0 ! 0)" and "is_float (x0 ! (length x0 - 1))" and "is_float (y0 ! 0)"
  shows "searchsorted x0 (x0 ! 0) = 0"
    and "interpolate x0 y0 [x0 ! 0] = Inr [Num (y0 ! 0)]"
proof -
  have ne: "x0 \<noteq> []" "y0 \<noteq> []" using assms(2,3) by auto
  have "sorted x0" using assms(1) by (rule strict_sorted_imp_sorted)
  then show s: "searchsorted x0 (x0 ! 0) = 0"
    using searchsorted_leftmost [of x0 "x0 ! 0"] leftmost_before [OF ne(1), of "x0 ! 0"] by simp
  have "x0 ! 0 < x0 ! (length x0 - 1)"
    using assms(2) by (intro sorted_wrt_nth_less [OF assms(1)]) simp_all
  then have "x0 ! 0 \<noteq> x0 ! (length x0 - 1)" by simp
  from weight_at_knot [OF assms(4,5) this] blend_zero [OF assms(6)]
  show "interpolate x0 y0 [x0 ! 0] = Inr [Num (y0 ! 0)]"
    using interpolate_single_wrap [OF s ne] by simp
qed

lemma interpolate_at_knot:
  assumes "sorted_wrt (<) x0" and "0 < k" and "k < length x0" and "length y0 = length x0"
    and "is_float (x0 ! k)" and "is_float (x0 ! (k - 1))" and "is_float (y0 ! k)"
  shows "searchsorted x0 (x0 ! k) = int k"
    and "interpolate x0 y0 [x0 ! k] = Inr [Num (y0 ! k)]"
proof -
  have lt: "x0 ! (k - 1) < x0 ! k"
    using assms(2,3) by (intro sorted_wrt_nth_less [OF assms(1)]) simp_all
  show "searchsorted x0 (x0 ! k) = int k"
    using interpolate_interior(1) [OF assms(1,2,3,4) lt] by simp
  from lt have "x0 ! k \<noteq> x0 ! (k - 1)" by simp
  from weight_at_knot [OF assms(5,6) this] blend_zero [OF assms(7)]
  show "interpolate x0 y0 [x0 ! k] = Inr [Num (y0 ! k)]"
    using interpolate_interior(2) [OF assms(1,2,3,4) lt] by simp
qed

lemma interpolate_returns:
  assumes "sorted x0" and "x0 \<noteq> []" and "length y0 = length x0"
    and "\<forall>x\<in>set xs. x \<le> last x0"
  shows "\<exists>vs. interpolate x0 y0 xs = Inr vs \<and> length vs = length xs"
proof -
  have ne: "y0 \<noteq> []" using assms(2,3) by auto
  have "\<exists>v. interpolate x0 y0 [x] = Inr [v]" if "x \<in> set xs" for x
  proof -
    have s: "searchsorted x0 x = int (leftmost x0 x)"
      by (rule searchsorted_leftmost [OF assms(1)])
    have "leftmost x0 x \<noteq> length x0"
    proof
      assume "leftmost x0 x = length x0"
      then have "length x0 - 1 < leftmost x0 x" using assms(2) by simp
      then have "x0 ! (length x0 - 1) < x" by (rule leftmost_below)
      with that assms(2,4) show False by (fastforce simp: last_conv_nth)
    qed
    then have k: "leftmost x0 x < length x0" using leftmost_le [of x0 x] by simp
    show ?thesis
    proof (cases "leftmost x0 x = 0")
      case True
      with s have "searchsorted x0 x = 0" by simp
      from interpolate_single_wrap [OF this assms(2) ne] show ?thesis by blast
    next
      case False
      then have "0 < leftmost x0 x" by simp
      from interpolate_single [OF s this k] k assms(3) show ?thesis by simp
    qed
  qed
  then obtain f where "\<forall>x\<in>set xs. interpolate x0 y0 [x] = Inr [f x]" by metis
  then have "interpolate x0 y0 (map (\<lambda>x. x) xs) = Inr (map f xs)"
    by (rule interpolate_batch)
  then show ?thesis by simp
qed

subsection \<open>The grouped function, read column by column\<close>

lemma np_take_length: "np_take a idx = Inr vs \<Longrightarrow> length vs = length idx"
  by (induction idx arbitrary: vs) (auto split: sum.splits)

lemma np_take_pairs_length: "np_take_pairs t ps = Inr vs \<Longrightarrow> length vs = length ps"
  by (induction t ps arbitrary: vs rule: np_take_pairs.induct) (auto split: sum.splits)

lemma np_take2_same_length:
  "length grp = length idx \<Longrightarrow> np_take2 t idx grp = np_take_pairs t (zip idx grp)"
  by (simp add: np_take2_def broadcast_def)

lemma np_take2_length:
  "np_take2 t idx grp = Inr vs \<Longrightarrow> length vs = length idx \<or> length idx = 1"
  by (auto simp: np_take2_def broadcast_def split: if_splits dest!: np_take_pairs_length)

lemma stretch_same_length: "length a = n \<Longrightarrow> stretch n a = a"
  by (simp add: stretch_def)

lemma np_index2_column:
  assumes "\<forall>row\<in>set t. 0 \<le> g \<and> g < int (length row)"
  shows "np_index2 t i g = np_index (column t g) i"
proof (cases "np_index t i")
  case (Inl e)
  then show ?thesis
    by (auto simp: np_index2_def np_index_def column_def Let_def split: if_splits)
next
  case (Inr row)
  define j where "j = (if i < 0 then int (length t) + i else i)"
  from Inr have j: "0 \<le> j" "j < int (length t)" and row: "row = t ! nat j"
    by (auto simp: np_index_def Let_def j_def split: if_splits)
  then have "row \<in> set t" by simp
  with assms have "np_index row g = Inr (row ! nat g)"
    by (auto simp: np_index_def Let_def)
  moreover have "np_index (column t g) i = Inr (t ! nat j ! nat g)"
    using j by (auto simp: np_index_def Let_def column_def j_def)
  ultimately show ?thesis using Inr row by (simp add: np_index2_def)
qed

lemma np_take_pairs_column:
  assumes "\<forall>row\<in>set t. 0 \<le> g \<and> g < int (length row)"
  shows "np_take_pairs t (zip idx (replicate (length idx) g)) = np_take (column t g) idx"
  by (induction idx) (auto simp: np_index2_column [OF assms] split: sum.splits)

lemma interpolate_grouped_column:
  assumes "\<forall>row\<in>set t. 0 \<le> g \<and> g < int (length row)"
  shows "interpolate_grouped x0 t xs (replicate (length xs) g) = interpolate x0 (column t g) xs"
proof -
  have r: "np_take2 t (map h xs) (replicate (length xs) g) = np_take (column t g) (map h xs)" for h
    using np_take_pairs_column [OF assms, of "map h xs"] by (simp add: np_take2_same_length)
  have r': "np_take2 t (map (\<lambda>i. i - 1) (map (searchsorted x0) xs)) (replicate (length xs) g) =
            np_take (column t g) (map (\<lambda>i. i - 1) (map (searchsorted x0) xs))"
    using r [of "\<lambda>x. searchsorted x0 x - 1"] by (simp add: comp_def)
  show ?thesis
    unfolding interpolate_grouped_def interpolate_def Let_def r r'
    by (auto split: sum.splits dest!: np_take_length simp: stretch_same_length)
qed



lemma interpolate_grouped_past:
  assumes "sorted x0" and "x \<in> set xs" and "\<forall>u\<in>set x0. u < x"
  shows "interpolate_grouped x0 t xs gs = Inl IndexError"
proof -
  have "searchsorted x0 x = int (length x0)"
    using searchsorted_leftmost [OF assms(1)] leftmost_past [OF assms(3)] by simp
  then have "np_index x0 (searchsorted x0 x) = Inl IndexError"
    by (simp add: np_index_length)
  moreover have "searchsorted x0 x \<in> set (map (searchsorted x0) xs)"
    using assms(2) by simp
  ultimately have "np_take x0 (map (searchsorted x0) xs) = Inl IndexError"
    by (rule np_take_fails [rotated])
  then show ?thesis
    by (simp add: interpolate_grouped_def Let_def error_all_eq split: sum.splits)
qed

lemma np_take_pairs_fails:
  "(i, g) \<in> set ps \<Longrightarrow> np_index2 t i g = Inl e \<Longrightarrow> np_take_pairs t ps = Inl e"
  by (induction t ps rule: np_take_pairs.induct) (auto simp: error_all_eq split: sum.splits)

lemma np_index2_beyond:
  assumes "\<forall>row\<in>set t. int (length row) \<le> g"
  shows "np_index2 t i g = Inl IndexError"
proof (cases "np_index t i")
  case (Inl e)
  then show ?thesis by (simp add: np_index2_def error_all_eq)
next
  case (Inr row)
  then have "row \<in> set t"
    by (auto simp: np_index_def Let_def split: if_splits)
  with assms have "np_index row g = Inl IndexError"
    by (auto simp: np_index_def Let_def)
  with Inr show ?thesis by (simp add: np_index2_def)
qed

lemma interpolate_grouped_beyond:
  assumes "length gs = length xs" and "g \<in> set gs" and "\<forall>row\<in>set t. int (length row) \<le> g"
  shows "interpolate_grouped x0 t xs gs = Inl IndexError"
proof -
  let ?idx = "map (searchsorted x0) xs"
  have "length ?idx = length gs" using assms(1) by simp
  then obtain i where "(i, g) \<in> set (zip ?idx gs)"
    using assms(2) by (meson in_set_impl_in_set_zip2)
  then have "np_take_pairs t (zip ?idx gs) = Inl IndexError"
    using np_index2_beyond [OF assms(3)] by (rule np_take_pairs_fails)
  then have "np_take2 t ?idx gs = Inl IndexError"
    using assms(1) by (simp add: np_take2_same_length)
  then show ?thesis
    by (simp add: interpolate_grouped_def Let_def error_all_eq split: sum.splits)
qed




lemmas float_eval = round64_def round_pos_def ulp_def ulp_up.simps ulp_down.simps
  nearest_even_def fsub_def signed_inf_def blend_def is_float_def

lemmas interpolate_eval = interpolate_def interpolate_grouped_def searchsorted_def bsearch.simps
  np_index_def np_take2_def broadcast_def np_index2_def stretch_def

lemma sorted_le_last:
  assumes "sorted (a :: real list)" and "u \<in> set a"
  shows "u \<le> last a"
proof -
  obtain i where i: "i < length a" "a ! i = u" using assms(2) by (auto simp: in_set_conv_nth)
  then have "a ! i \<le> a ! (length a - 1)" by (intro sorted_nth_mono [OF assms(1)]) simp_all
  moreover have "a \<noteq> []" using i by auto
  ultimately show ?thesis using i by (simp add: last_conv_nth)
qed

lemma interpolate_fails_iff:
  assumes "sorted x0" and "x0 \<noteq> []" and "length y0 = length x0"
  shows "interpolate x0 y0 xs = Inl IndexError \<longleftrightarrow> (\<exists>x\<in>set xs. last x0 < x)"
proof
  assume "interpolate x0 y0 xs = Inl IndexError"
  show "\<exists>x\<in>set xs. last x0 < x"
  proof (rule ccontr)
    assume "\<not> (\<exists>x\<in>set xs. last x0 < x)"
    then have "\<forall>x\<in>set xs. x \<le> last x0" by auto
    from interpolate_returns [OF assms this] \<open>interpolate x0 y0 xs = Inl IndexError\<close>
    show False by auto
  qed
next
  assume "\<exists>x\<in>set xs. last x0 < x"
  then obtain x where x: "x \<in> set xs" "last x0 < x" by blast
  have "\<forall>u\<in>set x0. u < x"
  proof
    fix u assume "u \<in> set x0"
    with assms(1) have "u \<le> last x0" by (rule sorted_le_last)
    with x(2) show "u < x" by simp
  qed
  with assms(1) x(1) show "interpolate x0 y0 xs = Inl IndexError" by (rule interpolate_past)
qed

section \<open>The claims\<close>

subsection \<open>The univariate function on valid inputs\<close>

text \<open>
  Claim C1 says that for a strictly increasing knot sequence of length at least 2, aligned
  knot values and a query \<open>x\<close> with \<open>x0[0] < x \<le> x0[n-1]\<close> the function returns
  \<open>wl * y0[idx-1] + (1 - wl) * y0[idx]\<close> for the leftmost insertion point \<open>idx\<close> and
  \<open>wl = (x0[idx] - x) / (x0[idx] - x0[idx-1])\<close>. The index is right; the value is the one the
  float operations give, and the denominator is the rounded sum \<open>dl + dr\<close>. On the knots
  \<open>[0, 3]\<close> with the values \<open>[0, 9]\<close> the query 1 returns \<open>3 + 2 ^ -51\<close> where the formula gives
  3; on the knots \<open>[-1, 2 ^ 53]\<close> with the values \<open>[1, 0]\<close> the query \<open>1 / 2\<close> returns
  \<open>1 - 2 ^ -52\<close> where the formula, evaluated in floats, gives 1.
\<close>

theorem interpolate_formula_counterexample:
  "leftmost [0, 3] 1 = 1 \<and>
   interpolate [0, 3] [0, 9] [1] = Inr [Num (3 + 1 / 2 ^ 51)] \<and>
   (let wl = ((3 :: real) - 1) / (3 - 0) in wl * 0 + (1 - wl) * 9) = 3 \<and>
   leftmost [- 1, 2 ^ 53] (1 / 2) = 1 \<and>
   interpolate [- 1, 2 ^ 53] [1, 0] [1 / 2] = Inr [Num (1 - 1 / 2 ^ 52)] \<and>
   (let wl = fdiv (fsub (Num (2 ^ 53)) (Num (1 / 2))) (fsub (Num (2 ^ 53)) (Num (- 1)))
    in fadd (fmul wl (Num 1)) (fmul (fsub (Num 1) wl) (Num 0))) = Num 1"
  by (simp add: float_eval interpolate_eval leftmost_def)

text \<open>
  Claim C1, amended. For a strictly increasing knot sequence \<open>x0\<close> of length at least 2, knot
  values \<open>y0\<close> of the same length and queries \<open>x\<close> with \<open>x0[0] < x \<le> x0[n-1]\<close>, the search
  returns the leftmost insertion point \<open>idx\<close> of \<open>x\<close>, the smallest index with
  \<open>x0[idx] \<ge> x\<close>, and \<open>interpolate\<close> returns, for every query of the batch, the float
  \<open>wl * y0[idx-1] + (1 - wl) * y0[idx]\<close> with \<open>wl = dr / (dl + dr)\<close>, \<open>dl = x - x0[idx-1]\<close> and
  \<open>dr = x0[idx] - x\<close>, where every operation is the float operation.
\<close>

theorem interpolate_formula:
  assumes "sorted_wrt (<) x0" and "2 \<le> length x0" and "length y0 = length x0"
    and "\<forall>x\<in>set xs. x0 ! 0 < x \<and> x \<le> x0 ! (length x0 - 1)"
  shows "(\<forall>x\<in>set xs. searchsorted x0 x = int (leftmost x0 x)) \<and>
         interpolate x0 y0 xs =
           Inr (map (\<lambda>x. let idx = leftmost x0 x;
                              dl = fsub (Num x) (Num (x0 ! (idx - 1)));
                              dr = fsub (Num (x0 ! idx)) (Num x);
                              wl = fdiv dr (fadd dl dr)
                          in fadd (fmul wl (Num (y0 ! (idx - 1))))
                               (fmul (fsub (Num 1) wl) (Num (y0 ! idx)))) xs)"
proof
  show "\<forall>x\<in>set xs. searchsorted x0 x = int (leftmost x0 x)"
    using interpolate_leftmost(1) [OF assms(1,2,3)] assms(4) by blast
  have "interpolate x0 y0 (map (\<lambda>x. x) xs) =
           Inr (map (\<lambda>x. let idx = leftmost x0 x;
                              dl = fsub (Num x) (Num (x0 ! (idx - 1)));
                              dr = fsub (Num (x0 ! idx)) (Num x);
                              wl = fdiv dr (fadd dl dr)
                          in fadd (fmul wl (Num (y0 ! (idx - 1))))
                               (fmul (fsub (Num 1) wl) (Num (y0 ! idx)))) xs)"
    using interpolate_leftmost(2) [OF assms(1,2,3)] assms(4)
    by (intro interpolate_batch) blast
  then show "interpolate x0 y0 xs =
           Inr (map (\<lambda>x. let idx = leftmost x0 x;
                              dl = fsub (Num x) (Num (x0 ! (idx - 1)));
                              dr = fsub (Num (x0 ! idx)) (Num x);
                              wl = fdiv dr (fadd dl dr)
                          in fadd (fmul wl (Num (y0 ! (idx - 1))))
                               (fmul (fsub (Num 1) wl) (Num (y0 ! idx)))) xs)"
    by simp
qed

theorem interpolate_formula_witness:
  "sorted_wrt (<) [0, 3, 20 :: real] \<and> 2 \<le> length [0, 3, 20 :: real] \<and>
   length [0, 9, 0 :: real] = length [0, 3, 20 :: real] \<and>
   [0, 3, 20] ! 0 < (1 :: real) \<and> [0, 3, 20] ! 0 < (20 :: real) \<and>
   (1 :: real) \<le> [0, 3, 20] ! 2 \<and> (20 :: real) \<le> [0, 3, 20] ! 2 \<and>
   leftmost [0, 3, 20] 1 = 1 \<and> leftmost [0, 3, 20] 20 = 2 \<and>
   searchsorted [0, 3, 20] 1 = 1 \<and> searchsorted [0, 3, 20] 20 = 2 \<and>
   interpolate [0, 3, 20] [0, 9, 0] [1, 20] = Inr [Num (3 + 1 / 2 ^ 51), Num 0]"
  using interpolate_formula [of "[0, 3, 20]" "[0, 9, 0]" "[1, 20]"]
  by (simp add: leftmost_def float_eval)

text \<open>
  Claim C9. On the knot positions \<open>[0, 10, 20]\<close> with the knot values \<open>[0, 100, 0]\<close>,
  \<open>interpolate\<close> returns 50 at the query 5 and 50 at the query 15; on the knot positions
  \<open>[0, 10]\<close> with the knot values \<open>[5, 15]\<close> it returns 15 at the query 10, the right knot.
\<close>

theorem interpolate_scenarios:
  "interpolate [0, 10, 20] [0, 100, 0] [5] = Inr [Num 50] \<and>
   interpolate [0, 10, 20] [0, 100, 0] [15] = Inr [Num 50] \<and>
   interpolate [0, 10] [5, 15] [10] = Inr [Num 15]"
  by (simp add: float_eval interpolate_eval)

text \<open>
  Claim C5. For a strictly increasing knot sequence and knot values of the same length,
  all of them floats, a query equal to an interior knot \<open>x0[k]\<close>, \<open>0 < k < n-1\<close>, gets the
  index \<open>k\<close> from the search (the knot is the upper end of its interval) and the value
  \<open>y0[k]\<close> exactly.
\<close>

theorem interior_knot_exact:
  assumes "sorted_wrt (<) x0" and "length y0 = length x0"
    and "\<forall>v\<in>set x0. is_float v" and "\<forall>v\<in>set y0. is_float v"
    and "\<forall>k\<in>set ks. 0 < k \<and> k < length x0 - 1"
  shows "(\<forall>k\<in>set ks. searchsorted x0 (x0 ! k) = int k) \<and>
         interpolate x0 y0 (map (\<lambda>k. x0 ! k) ks) = Inr (map (\<lambda>k. Num (y0 ! k)) ks)"
proof -
  have one: "searchsorted x0 (x0 ! k) = int k \<and> interpolate x0 y0 [x0 ! k] = Inr [Num (y0 ! k)]"
    if "k \<in> set ks" for k
  proof -
    from that assms(5) have k: "0 < k" "k < length x0" by auto
    then have "is_float (x0 ! k)" "is_float (x0 ! (k - 1))" "is_float (y0 ! k)"
      using assms(2,3,4) by simp_all
    from interpolate_at_knot [OF assms(1) k assms(2) this] show ?thesis by simp
  qed
  then have "interpolate x0 y0 (map (\<lambda>k. x0 ! k) ks) = Inr (map (\<lambda>k. Num (y0 ! k)) ks)"
    by (intro interpolate_batch) blast
  with one show ?thesis by blast
qed

theorem interior_knot_exact_witness:
  "sorted_wrt (<) [0, 10, 20, 40 :: real] \<and>
   length [3, 8, 5, 1 :: real] = length [0, 10, 20, 40 :: real] \<and>
   is_float 0 \<and> is_float 10 \<and> is_float 20 \<and> is_float 40 \<and>
   is_float 3 \<and> is_float 8 \<and> is_float 5 \<and> is_float 1 \<and>
   0 < (1 :: nat) \<and> 1 < length [0, 10, 20, 40 :: real] - 1 \<and>
   0 < (2 :: nat) \<and> 2 < length [0, 10, 20, 40 :: real] - 1 \<and>
   searchsorted [0, 10, 20, 40] 10 = 1 \<and> searchsorted [0, 10, 20, 40] 20 = 2 \<and>
   interpolate [0, 10, 20, 40] [3, 8, 5, 1] [10, 20] = Inr [Num 8, Num 5]"
proof -
  have f: "is_float 0" "is_float 10" "is_float 20" "is_float 40"
    "is_float 3" "is_float 8" "is_float 5" "is_float 1"
    by (simp_all add: float_eval)
  show ?thesis
    using interior_knot_exact [of "[0, 10, 20, 40]" "[3, 8, 5, 1]" "[1, 2]"] f by simp
qed

subsection \<open>The left boundary and the inputs outside the contract\<close>

text \<open>
  Claim C2 says that a query equal to the first knot gets the index 0, that \<open>x0[idx-1]\<close>
  then wraps to the last knot, and that the value returned differs from \<open>y0[0]\<close>. The first
  two parts hold. The third does not: \<open>dr\<close> is zero there, so the weight \<open>wl\<close> on the
  wrapped-to value is zero, and the result is \<open>y0[0]\<close>. On the knots \<open>[0, 10]\<close> with the values
  \<open>[5, 15]\<close> the query 0 returns 5.
\<close>

theorem left_boundary_counterexample:
  "searchsorted [0, 10] 0 = 0 \<and>
   np_index [0, 10 :: real] (searchsorted [0, 10] 0 - 1) = Inr 10 \<and>
   interpolate [0, 10] [5, 15] [0] = Inr [Num 5] \<and> [5, 15 :: real] ! 0 = 5"
  by (simp add: float_eval interpolate_eval)

text \<open>
  Claim C2, amended. For a strictly increasing knot sequence of length at least 2 and knot
  values of the same length, all of them floats, a query equal to \<open>x0[0]\<close> gets the index 0
  from the search, \<open>x0[idx-1]\<close> wraps to the last knot, and \<open>interpolate\<close> returns \<open>y0[0]\<close>.
\<close>

theorem left_boundary_exact:
  assumes "sorted_wrt (<) x0" and "2 \<le> length x0" and "length y0 = length x0"
    and "\<forall>v\<in>set x0. is_float v" and "\<forall>v\<in>set y0. is_float v"
  shows "searchsorted x0 (x0 ! 0) = 0 \<and>
         np_index x0 (searchsorted x0 (x0 ! 0) - 1) = Inr (x0 ! (length x0 - 1)) \<and>
         interpolate x0 y0 [x0 ! 0] = Inr [Num (y0 ! 0)]"
proof -
  have ne: "x0 \<noteq> []" using assms(2) by auto
  have "0 < length x0" "0 < length y0" using assms(2,3) by auto
  then have "is_float (x0 ! 0)" "is_float (x0 ! (length x0 - 1))" "is_float (y0 ! 0)"
    using assms(4,5) by simp_all
  from interpolate_first_knot [OF assms(1,2,3) this] ne show ?thesis
    by (simp add: np_index_minus_one)
qed

theorem left_boundary_exact_witness:
  "sorted_wrt (<) [0, 10, 20 :: real] \<and> 2 \<le> length [0, 10, 20 :: real] \<and>
   length [7, 100, 3 :: real] = length [0, 10, 20 :: real] \<and>
   is_float 0 \<and> is_float 10 \<and> is_float 20 \<and> is_float 7 \<and> is_float 100 \<and> is_float 3 \<and>
   searchsorted [0, 10, 20] 0 = 0 \<and>
   np_index [0, 10, 20 :: real] (searchsorted [0, 10, 20] 0 - 1) = Inr 20 \<and>
   interpolate [0, 10, 20] [7, 100, 3] [0] = Inr [Num 7]"
proof -
  have f: "is_float 0" "is_float 10" "is_float 20" "is_float 7" "is_float 100" "is_float 3"
    by (simp_all add: float_eval)
  show ?thesis
    using left_boundary_exact [of "[0, 10, 20]" "[7, 100, 3]"] f by (simp add: np_index_def)
qed

text \<open>
  Claim C3 says that every precondition violation is detected before any interpolation is
  computed and reported as an error. Neither function checks anything: a query below the
  first knot, a knot sequence with a repeated knot, a single knot, a values array that is
  too long and a negative group index all come back as a result.
\<close>

theorem no_validation_counterexample:
  "interpolate [0, 10] [5, 15] [- 5] = Inr [Num 0] \<and>
   interpolate [0, 5, 5, 10] [1, 2, 3, 4] [5] = Inr [Num 2] \<and>
   interpolate [3] [1] [3] = Inr [NaN] \<and>
   interpolate [0, 10] [5, 15, 7] [5] = Inr [Num 10] \<and>
   interpolate_grouped [0, 10] [[1, 100], [2, 200]] [5] [- 1] = Inr [Num 150]"
  by (simp add: float_eval interpolate_eval)

text \<open>
  Claim C3, amended. Neither function checks its inputs before it computes. With sorted
  knots, at least one of them, and as many knot values as knots, \<open>interpolate\<close> fails if
  and only if some query is greater than the last knot; the failure is the \<^verbatim>\<open>IndexError\<close> of
  the array read, and the call returns no result for any query. When no query is greater
  than the last knot it returns one result for every query. The grouped function fails
  with \<^verbatim>\<open>IndexError\<close> when the knots are sorted and some query is greater than every knot,
  and when there are as many groups as queries and some group index is at or beyond the
  length of every row of the table.
\<close>

theorem index_error_exactly:
  "(sorted x0 \<and> x0 \<noteq> [] \<and> length y0 = length x0 \<longrightarrow>
      (interpolate x0 y0 xs = Inl IndexError \<longleftrightarrow> (\<exists>x\<in>set xs. last x0 < x)) \<and>
      ((\<forall>x\<in>set xs. x \<le> last x0) \<longrightarrow>
         (\<exists>vs. interpolate x0 y0 xs = Inr vs \<and> length vs = length xs))) \<and>
   (sorted x0 \<and> x \<in> set xs' \<and> (\<forall>u\<in>set x0. u < x) \<longrightarrow>
      interpolate_grouped x0 t xs' gs' = Inl IndexError) \<and>
   (length gs = length xs \<and> g \<in> set gs \<and> (\<forall>row\<in>set t. int (length row) \<le> g) \<longrightarrow>
      interpolate_grouped x0 t xs gs = Inl IndexError)"
  using interpolate_fails_iff [of x0 y0 xs] interpolate_returns [of x0 y0 xs]
    interpolate_grouped_past [of x0 x xs' t gs'] interpolate_grouped_beyond [of gs xs g t x0]
  by blast

theorem index_error_exactly_witness:
  "sorted [0, 10 :: real] \<and> [0, 10 :: real] \<noteq> [] \<and>
   length [5, 15 :: real] = length [0, 10 :: real] \<and>
   last [0, 10 :: real] < 11 \<and> (11 :: real) \<in> set [5, 11] \<and>
   interpolate [0, 10] [5, 15] [5, 11] = Inl IndexError \<and>
   (- 5 :: real) \<le> last [0, 10] \<and> (5 :: real) \<le> last [0, 10] \<and>
   interpolate [0, 10] [5, 15] [- 5, 5] = Inr [Num 0, Num 10] \<and>
   (0 :: real) < 11 \<and> (10 :: real) < 11 \<and>
   interpolate_grouped [0, 10] [[1, 100], [2, 200]] [5, 11] [1, 0] = Inl IndexError \<and>
   length [1, 2 :: int] = length [5, 10 :: real] \<and> (2 :: int) \<in> set [1, 2] \<and>
   int (length [1, 100 :: real]) \<le> 2 \<and> int (length [2, 200 :: real]) \<le> 2 \<and>
   interpolate_grouped [0, 10] [[1, 100], [2, 200]] [5, 10] [1, 2] = Inl IndexError"
proof -
  have a: "interpolate [0, 10] [5, 15] [5, 11] = Inl IndexError"
    and c: "interpolate_grouped [0, 10] [[1, 100], [2, 200]] [5, 11] [1, 0] = Inl IndexError"
    using index_error_exactly [where ?x0.0 = "[0, 10]" and ?y0.0 = "[5, 15]" and xs = "[5, 11]"
        and x = 11 and xs' = "[5, 11]" and t = "[[1, 100], [2, 200]]" and gs' = "[1, 0]"
        and gs = "[]" and g = 0]
    by simp_all
  have d: "interpolate_grouped [0, 10] [[1, 100], [2, 200]] [5, 10] [1, 2] = Inl IndexError"
    and "\<exists>vs. interpolate [0, 10] [5, 15] [- 5, 5] = Inr vs \<and> length vs = length [- 5, 5 :: real]"
    using index_error_exactly [where ?x0.0 = "[0, 10]" and ?y0.0 = "[5, 15]" and xs = "[5, 10]"
        and x = 11 and xs' = "[]" and t = "[[1, 100], [2, 200]]" and gs' = "[]"
        and gs = "[1, 2]" and g = 2]
      index_error_exactly [where ?x0.0 = "[0, 10]" and ?y0.0 = "[5, 15]" and xs = "[- 5, 5]"
        and x = 11 and xs' = "[]" and t = "[[1, 100], [2, 200]]" and gs' = "[]"
        and gs = "[]" and g = 0]
    by simp_all
  moreover have b: "interpolate [0, 10] [5, 15] [- 5, 5] = Inr [Num 0, Num 10]"
    by (simp add: float_eval interpolate_eval)
  ultimately show ?thesis using a c by simp
qed

subsection \<open>The grouped function\<close>




text \<open>
  Claim C10. For strictly increasing knots, at least two of them, a table with one row per
  knot, a group index \<open>g\<close> that every row has and queries in \<open>[x0[0], x0[n-1]]\<close>, the grouped
  function with the group \<open>g\<close> at every query returns what the univariate function returns
  on column \<open>g\<close> of the table, and that is one result for every query.
\<close>

theorem grouped_refines_univariate:
  assumes "sorted_wrt (<) x0" and "2 \<le> length x0" and "length t = length x0"
    and "\<forall>row\<in>set t. 0 \<le> g \<and> g < int (length row)"
    and "\<forall>x\<in>set xs. x0 ! 0 \<le> x \<and> x \<le> x0 ! (length x0 - 1)"
  shows "interpolate_grouped x0 t xs (replicate (length xs) g) = interpolate x0 (column t g) xs \<and>
         (\<exists>vs. interpolate x0 (column t g) xs = Inr vs \<and> length vs = length xs)"
proof -
  have len: "length (column t g) = length x0" using assms(3) by (simp add: column_def)
  have ne: "x0 \<noteq> []" using assms(2) by auto
  have s: "sorted x0" using assms(1) by (rule strict_sorted_imp_sorted)
  have "\<forall>x\<in>set xs. x \<le> last x0" using assms(5) ne by (simp add: last_conv_nth)
  from interpolate_returns [OF s ne len this] interpolate_grouped_column [OF assms(4)]
  show ?thesis by simp
qed

theorem grouped_refines_univariate_witness:
  "sorted_wrt (<) [0, 10 :: real] \<and> 2 \<le> length [0, 10 :: real] \<and>
   length [[1, 100], [2, 200 :: real]] = length [0, 10 :: real] \<and>
   (0 :: int) \<le> 1 \<and> (1 :: int) < int (length [1, 100 :: real]) \<and>
   (1 :: int) < int (length [2, 200 :: real]) \<and>
   [0, 10] ! 0 \<le> (0 :: real) \<and> (0 :: real) \<le> [0, 10] ! 1 \<and>
   [0, 10] ! 0 \<le> (5 :: real) \<and> (5 :: real) \<le> [0, 10] ! 1 \<and>
   column [[1, 100], [2, 200 :: real]] 1 = [100, 200] \<and>
   interpolate_grouped [0, 10] [[1, 100], [2, 200]] [0, 5] [1, 1] = Inr [Num 100, Num 150] \<and>
   interpolate [0, 10] [100, 200] [0, 5] = Inr [Num 100, Num 150]"
proof -
  have e: "interpolate [0, 10] [100, 200] [0, 5] = Inr [Num 100, Num 150]"
    by (simp add: float_eval interpolate_eval)
  have c: "column [[1, 100], [2, 200 :: real]] 1 = [100, 200]"
    by (simp add: column_def)
  have r: "replicate (length [0, 5 :: real]) (1 :: int) = [1, 1]"
    by (simp add: numeral_2_eq_2)
  show ?thesis
    using grouped_refines_univariate [of "[0, 10]" "[[1, 100], [2, 200]]" 1 "[0, 5]"] e
    unfolding c r by simp
qed

end
